theory Spec2Isabelle
  imports Main "HOL-Library.Word"
begin

section \<open>The Soft Power Switch Mk2 example sketch\<close>

text \<open>
  The sketch \<^verbatim>\<open>SoftPowerSwitchMk2_Example.ino\<close> consists of \<^verbatim>\<open>setup()\<close>, \<^verbatim>\<open>loop()\<close> and
  \<^verbatim>\<open>powerDown()\<close>. They act on one global timer, three GPIO pins, the serial receive
  buffer and the millisecond clock. The embedding below threads a record of that state
  through the three functions.

  Timing model. The clock counts milliseconds since power-up as a natural number;
  \<^verbatim>\<open>millis()\<close> is that count truncated to an \<^verbatim>\<open>unsigned long\<close> (32 bits on the boards
  the sketch targets), so it wraps around after \<open>2 ^ 32\<close> ms. \<^verbatim>\<open>delay(n)\<close> advances the
  clock by exactly \<open>n\<close>; every other statement takes no time. The level of the PUSH line
  is a function of the time, supplied by the environment, and \<^verbatim>\<open>digitalRead(_PUSH)\<close>
  samples it at the current clock value.

  Pins. \<^verbatim>\<open>_PUSH = 14\<close>, \<^verbatim>\<open>_OFF = 32\<close> and \<^verbatim>\<open>STAT_LED = LED_BUILTIN\<close> are never assigned
  after their initialisation. \<^verbatim>\<open>LED_BUILTIN\<close> is a macro of the board package; it is
  taken to name a pin other than 14 and 32, so that the three pins are three separate
  parts of the state.

  Console output. The calls of \<^verbatim>\<open>Serial.print\<close>, \<^verbatim>\<open>Serial.println\<close> and
  \<^verbatim>\<open>Serial.flush\<close> change neither the timer nor a pin nor the clock and are left out.
  The macro \<^verbatim>\<open>PRINT_TIMER_OUTPUT\<close> is not defined
  (its \<^verbatim>\<open>#define\<close> is commented out), so the two blocks it guards are not compiled.
\<close>

subsection \<open>State\<close>

type_synonym ulong = "32 word"

datatype level = LOW | HIGH

datatype pin_mode = INPUT | INPUT_PULLUP | OUTPUT

record state =
  clock :: nat  \<comment> \<open>milliseconds since power-up\<close>
  powerPressedStartTime :: ulong  \<comment> \<open>the global timer; 0 means unset\<close>
  rx :: "char list"  \<comment> \<open>the serial receive buffer, oldest byte first\<close>
  push_mode :: pin_mode  \<comment> \<open>mode of pin \<^verbatim>\<open>_PUSH\<close>\<close>
  led_mode :: pin_mode  \<comment> \<open>mode of pin \<^verbatim>\<open>STAT_LED\<close>\<close>
  led_out :: level  \<comment> \<open>level last written to \<^verbatim>\<open>STAT_LED\<close>\<close>
  off_mode :: pin_mode  \<comment> \<open>mode of pin \<^verbatim>\<open>_OFF\<close>\<close>
  off_out :: level  \<comment> \<open>level last written to \<^verbatim>\<open>_OFF\<close>\<close>

text \<open>The environment: the level of the PUSH line at each millisecond. The line is
  \<open>LOW\<close> while the button is pressed and pulled \<open>HIGH\<close> while it is released.\<close>

type_synonym button = "nat \<Rightarrow> level"

definition millis :: "state \<Rightarrow> ulong" where
  "millis s = of_nat (clock s)"

definition delay :: "nat \<Rightarrow> state \<Rightarrow> state" where
  "delay n s = s\<lparr>clock := clock s + n\<rparr>"

definition digitalRead_PUSH :: "button \<Rightarrow> state \<Rightarrow> level" where
  "digitalRead_PUSH push s = push (clock s)"

definition debounceDelay :: nat where
  "debounceDelay = 20"

text \<open>The OFF line cuts the power when the pin drives it high.\<close>

definition off_asserted :: "state \<Rightarrow> bool" where
  "off_asserted s = (off_mode s = OUTPUT \<and> off_out s = HIGH)"

subsection \<open>Outcomes\<close>

text \<open>
  A call either returns with a state, or control enters the endless loop of
  \<^verbatim>\<open>powerDown()\<close> (\<open>PoweredDown\<close>, with the state at the entry of that loop), or it spins
  forever in one of the waiting loops of the lock test (\<open>Hung\<close>).
\<close>

datatype outcome = Returned state | PoweredDown state | Hung

definition and_then :: "outcome \<Rightarrow> (state \<Rightarrow> outcome) \<Rightarrow> outcome" where
  "and_then r f = (case r of Returned s \<Rightarrow> f s | PoweredDown s \<Rightarrow> PoweredDown s | Hung \<Rightarrow> Hung)"

subsection \<open>powerDown\<close>

text \<open>Lines 160 to 168: the LED is switched off, the timer is set to the current
  time, and the OFF pin is made an output and driven high.\<close>

definition powerDown_entry :: "state \<Rightarrow> state" where
  "powerDown_entry s =
     s\<lparr>led_out := LOW,
       powerPressedStartTime := millis s,
       off_mode := OUTPUT,
       off_out := HIGH\<rparr>"

text \<open>Lines 170 to 176: \<^verbatim>\<open>while (1) { delay(1); }\<close>. The result \<open>None\<close> stands for a
  loop that does not return.\<close>

partial_function (option) powerDown_loop :: "state \<Rightarrow> state option" where
  "powerDown_loop s = powerDown_loop (delay 1 s)"

text \<open>The state after \<open>n\<close> passes through the body of that loop.\<close>

fun powerDown_ticks :: "nat \<Rightarrow> state \<Rightarrow> state" where
  "powerDown_ticks 0 s = s"
| "powerDown_ticks (Suc n) s = powerDown_ticks n (delay 1 s)"

definition powerDown :: "state \<Rightarrow> outcome" where
  "powerDown s =
     (let s1 = powerDown_entry s in
      case powerDown_loop s1 of
        None \<Rightarrow> PoweredDown s1
      | Some s2 \<Rightarrow> Returned s2)"

subsection \<open>setup\<close>

text \<open>Lines 50 to 60: the loop that waits for the release of the button, for at
  most about half a second.\<close>

partial_function (option) confirm_loop :: "button \<Rightarrow> state \<Rightarrow> state option" where
  "confirm_loop push s =
     (if digitalRead_PUSH push s = LOW then
        (let s1 = delay 100 s in
         if 500 < millis s1 - powerPressedStartTime s1 then Some s1
         else confirm_loop push s1)
      else Some s)"

text \<open>Lines 81 and 82: \<^verbatim>\<open>while (Serial.available()) Serial.read();\<close>\<close>

fun flush_rx :: "char list \<Rightarrow> char list" where
  "flush_rx [] = []"
| "flush_rx (c # cs) = flush_rx cs"

text \<open>
  \<^verbatim>\<open>setup()\<close>, under the name \<open>setup_fn\<close> (\<open>setup\<close> is a keyword of Isabelle). Line 43
  sets the mode of the PUSH pin and line 49 starts the timer; lines 50 to 60 are the
  confirmation loop; line 63 compares the measured duration with 500 and line 66 calls
  \<^verbatim>\<open>powerDown()\<close>; were that call to return, control would go on with line 69 as it does
  when the call is skipped. Line 70 resets the timer, lines 74 and 75 switch the status
  LED on, and lines 81 and 82 empty the receive buffer.
\<close>

definition setup_fn :: "button \<Rightarrow> state \<Rightarrow> outcome" where
  "setup_fn push s0 =
     (let s1 = s0\<lparr>push_mode := INPUT_PULLUP\<rparr>;
          s2 = s1\<lparr>powerPressedStartTime := millis s1\<rparr>
      in case confirm_loop push s2 of
           None \<Rightarrow> Hung
         | Some s3 \<Rightarrow>
             and_then
               (if millis s3 - powerPressedStartTime s3 < 500 then powerDown s3
                else Returned s3)
               (\<lambda>s4. let s5 = s4\<lparr>powerPressedStartTime := 0\<rparr>;
                          s6 = s5\<lparr>led_mode := OUTPUT\<rparr>;
                          s7 = s6\<lparr>led_out := HIGH\<rparr>
                      in Returned (s7\<lparr>rx := flush_rx (rx s7)\<rparr>)))"

subsection \<open>loop\<close>

text \<open>Lines 101 and 102: \<^verbatim>\<open>while (digitalRead(_PUSH) == HIGH) delay(1);\<close>\<close>

partial_function (option) wait_for_press :: "button \<Rightarrow> state \<Rightarrow> state option" where
  "wait_for_press push s =
     (if digitalRead_PUSH push s = HIGH then wait_for_press push (delay 1 s)
      else Some s)"

text \<open>Lines 106 to 114:
  \<^verbatim>\<open>while (1) { delay(1); if (digitalRead(_PUSH) == HIGH) break; }\<close>\<close>

partial_function (option) wait_for_release :: "button \<Rightarrow> state \<Rightarrow> state option" where
  "wait_for_release push s =
     (let s1 = delay 1 s in
      if digitalRead_PUSH push s1 = HIGH then Some s1
      else wait_for_release push s1)"

text \<open>Lines 101 to 104: the first part of the branch of the command \<^verbatim>\<open>'r'\<close>, up to
  the start of the timer. The first waiting loop runs until the button is pressed, and
  only then line 104 assigns \<^verbatim>\<open>millis()\<close> to the timer. The result is the state after
  line 104, or \<open>None\<close> if the button is never pressed.\<close>

definition lock_test_start :: "button \<Rightarrow> state \<Rightarrow> state option" where
  "lock_test_start push s =
     (case wait_for_press push s of
        None \<Rightarrow> None
      | Some s1 \<Rightarrow> Some (s1\<lparr>powerPressedStartTime := millis s1\<rparr>))"

text \<open>Lines 98 to 116: the whole branch of the command \<^verbatim>\<open>'r'\<close>. After the start of
  the timer the second waiting loop runs until the button is released, and line 116
  resets the timer.\<close>

definition lock_test :: "button \<Rightarrow> state \<Rightarrow> outcome" where
  "lock_test push s =
     (case lock_test_start push s of
        None \<Rightarrow> Hung
      | Some s2 \<Rightarrow>
          (case wait_for_release push s2 of
             None \<Rightarrow> Hung
           | Some s3 \<Rightarrow> Returned (s3\<lparr>powerPressedStartTime := 0\<rparr>)))"

text \<open>Lines 87 to 118: the console commands. \<^verbatim>\<open>Serial.available()\<close> holds when the
  receive buffer is not empty, and \<^verbatim>\<open>Serial.read()\<close> takes its oldest byte. A byte other
  than \<^verbatim>\<open>'z'\<close> and \<^verbatim>\<open>'r'\<close> is taken from the buffer and ignored. If \<^verbatim>\<open>powerDown()\<close> or
  the lock test returns, control goes on with the button check at line 120.\<close>

definition serial_command :: "button \<Rightarrow> state \<Rightarrow> outcome" where
  "serial_command push s =
     (case rx s of
        [] \<Rightarrow> Returned s
      | incoming # rest \<Rightarrow>
          (let s1 = s\<lparr>rx := rest\<rparr> in
           if incoming = CHR ''z'' then powerDown s1
           else if incoming = CHR ''r'' then lock_test push s1
           else Returned s1))"

text \<open>
  Lines 120 to 153: the three cases of the button check. Each case waits
  \<^verbatim>\<open>debounceDelay\<close> and samples the button again. In the first case (lines 120 to 129)
  the second sample guards the start of the timer, in the second (lines 130 to 142) it
  guards the comparison with 2000 and the call of \<^verbatim>\<open>powerDown()\<close>. In the third (lines
  143 to 153) the second sample at line 147 guards only a printout, and the assignment
  \<^verbatim>\<open>powerPressedStartTime = 0\<close> at line 152 follows the inner \<^verbatim>\<open>if\<close>, so it is executed
  whatever that sample reads. The comparison \<^verbatim>\<open>powerPressedStartTime > 0\<close> is on an
  unsigned value.
\<close>

definition button_check :: "button \<Rightarrow> state \<Rightarrow> outcome" where
  "button_check push s =
     (if digitalRead_PUSH push s = LOW \<and> powerPressedStartTime s = 0 then
        (let s1 = delay debounceDelay s in
         if digitalRead_PUSH push s1 = LOW
         then Returned (s1\<lparr>powerPressedStartTime := millis s1\<rparr>)
         else Returned s1)
      else if digitalRead_PUSH push s = LOW \<and> 0 < powerPressedStartTime s then
        (let s1 = delay debounceDelay s in
         if digitalRead_PUSH push s1 = LOW then
           (if 2000 < millis s1 - powerPressedStartTime s1 then powerDown s1
            else Returned s1)
         else Returned s1)
      else if digitalRead_PUSH push s = HIGH \<and> 0 < powerPressedStartTime s then
        (let s1 = delay debounceDelay s in
         Returned (s1\<lparr>powerPressedStartTime := 0\<rparr>))
      else Returned s)"

text \<open>\<^verbatim>\<open>loop()\<close>: the console commands, then the button check.\<close>

definition loop :: "button \<Rightarrow> state \<Rightarrow> outcome" where
  "loop push s = and_then (serial_command push s) (button_check push)"

text \<open>The Arduino core calls \<^verbatim>\<open>loop()\<close> again and again; \<open>loop_passes n\<close> is \<open>n\<close>
  such calls in a row, stopping where a call does not return.\<close>

fun loop_passes :: "nat \<Rightarrow> button \<Rightarrow> state \<Rightarrow> outcome" where
  "loop_passes 0 push s = Returned s"
| "loop_passes (Suc n) push s = and_then (loop push s) (loop_passes n push)"

subsection \<open>The run of the sketch\<close>

text \<open>
  The Arduino core calls \<^verbatim>\<open>setup()\<close> once and then \<^verbatim>\<open>loop()\<close> for ever, and bytes of the
  console arrive in the receive buffer in between. A run is \<^verbatim>\<open>setup()\<close> followed by a
  list of events, each one pass of \<^verbatim>\<open>loop()\<close> or the arrival of some bytes; the states
  that \<open>monitor_run\<close> yields, over all lists of events, are the reachable states of the
  sketch between two passes. Once a call has not returned, nothing more happens.
\<close>

datatype event = Pass | Receive "char list"

fun monitor_step :: "button \<Rightarrow> outcome \<Rightarrow> event \<Rightarrow> outcome" where
  "monitor_step push (Returned s) Pass = loop push s"
| "monitor_step push (Returned s) (Receive bytes) = Returned (s\<lparr>rx := rx s @ bytes\<rparr>)"
| "monitor_step push (PoweredDown s) e = PoweredDown s"
| "monitor_step push Hung e = Hung"

definition monitor_run :: "button \<Rightarrow> state \<Rightarrow> event list \<Rightarrow> outcome" where
  "monitor_run push s0 es = foldl (monitor_step push) (setup_fn push s0) es"

subsection \<open>Example environments and states\<close>

text \<open>Button traces and states at which the theorems below are instantiated.\<close>

definition always_pressed :: button where
  "always_pressed t = LOW"

definition always_released :: button where
  "always_released t = HIGH"

text \<open>Pressed from \<open>a\<close> up to, but not including, \<open>b\<close>; released otherwise.\<close>

definition pressed_between :: "nat \<Rightarrow> nat \<Rightarrow> button" where
  "pressed_between a b t = (if a \<le> t \<and> t < b then LOW else HIGH)"

text \<open>Released from \<open>a\<close> up to, but not including, \<open>b\<close>; pressed otherwise.\<close>

definition released_between :: "nat \<Rightarrow> nat \<Rightarrow> button" where
  "released_between a b t = (if a \<le> t \<and> t < b then HIGH else LOW)"

text \<open>The state at power-up, before \<^verbatim>\<open>setup()\<close>.\<close>

definition boot_state :: state where
  "boot_state =
     \<lparr>clock = 0, powerPressedStartTime = 0, rx = [], push_mode = INPUT,
      led_mode = INPUT, led_out = LOW, off_mode = INPUT, off_out = LOW\<rparr>"

text \<open>A state of normal operation, as \<^verbatim>\<open>setup()\<close> leaves the pins, with the given
  clock, timer and receive buffer.\<close>

definition running_state :: "nat \<Rightarrow> ulong \<Rightarrow> char list \<Rightarrow> state" where
  "running_state c t buf =
     \<lparr>clock = c, powerPressedStartTime = t, rx = buf, push_mode = INPUT_PULLUP,
      led_mode = OUTPUT, led_out = HIGH, off_mode = INPUT, off_out = LOW\<rparr>"

section \<open>Auxiliary facts\<close>

subsection \<open>powerDown does not return\<close>

lemma powerDown_loop_not_Some:
  assumes "powerDown_loop s = Some s'"
  shows False
  by (rule powerDown_loop.raw_induct [where P = "\<lambda>_ _. False", OF _ assms]) blast

lemma powerDown_loop_None: "powerDown_loop s = None"
  using powerDown_loop_not_Some [of s] by (cases "powerDown_loop s") auto

lemma powerDown_eq: "powerDown s = PoweredDown (powerDown_entry s)"
  by (simp add: powerDown_def powerDown_loop_None)

lemma powerDown_loop_ticks: "powerDown_loop s = powerDown_loop (powerDown_ticks n s)"
  by (induction n arbitrary: s) (simp, subst powerDown_loop.simps, simp)

lemma ticks_fields:
  "powerDown_ticks n s = s\<lparr>clock := clock s + n\<rparr>"
  by (induction n arbitrary: s) (simp_all add: delay_def)

subsection \<open>Unsigned 32-bit arithmetic on the clock\<close>

lemma of_nat_diff_ulong: "(of_nat (c + k) :: ulong) - of_nat c = of_nat k"
  by simp

lemma ulong_less_of_nat: "k < 2 ^ 32 \<Longrightarrow> n < 2 ^ 32 \<Longrightarrow> ((of_nat n :: ulong) < of_nat k) = (n < k)"
  by (simp add: word_less_nat_alt unat_of_nat)

lemma ulong_500_less: "k < 2 ^ 32 \<Longrightarrow> ((500 :: ulong) < of_nat k) = (500 < k)"
  using ulong_less_of_nat [of k 500] by simp

lemma ulong_less_500: "k < 2 ^ 32 \<Longrightarrow> ((of_nat k :: ulong) < 500) = (k < 500)"
  using ulong_less_of_nat [of 500 k] by simp

lemma ulong_2000_less: "k < 2 ^ 32 \<Longrightarrow> ((2000 :: ulong) < of_nat k) = (2000 < k)"
  using ulong_less_of_nat [of k 2000] by simp

lemma flush_rx_Nil: "flush_rx cs = []"
  by (induction cs) simp_all

subsection \<open>The confirmation loop of setup\<close>

lemma confirm_loop_released:
  "push (clock s) = HIGH \<Longrightarrow> confirm_loop push s = Some s"
  by (subst confirm_loop.simps) (simp add: digitalRead_PUSH_def)

lemma confirm_loop_held:
  assumes "push (clock s) = LOW" "clock s = c + e" "powerPressedStartTime s = of_nat c" "e \<le> 500"
  shows "confirm_loop push s =
           (if 400 < e then Some (delay 100 s) else confirm_loop push (delay 100 s))"
proof -
  have d: "millis (delay 100 s) - powerPressedStartTime (delay 100 s) = of_nat (e + 100)"
    using assms by (simp add: millis_def delay_def)
  have "e + 100 < 2 ^ 32" using assms by simp
  then have "((500 :: ulong) < of_nat (e + 100)) = (400 < e)"
    by (subst ulong_500_less) auto
  with d assms(1) show ?thesis
    by (subst confirm_loop.simps) (simp add: digitalRead_PUSH_def Let_def)
qed

lemma confirm_loop_total:
  assumes "clock s = c + e" "powerPressedStartTime s = of_nat c" "e \<le> 500"
  shows "\<exists>s'. confirm_loop push s = Some s' \<and> clock s' \<le> c + 600 \<and> clock s \<le> clock s'"
  using assms
proof (induction "500 - e" arbitrary: s e rule: less_induct)
  case less
  show ?case
  proof (cases "push (clock s)")
    case HIGH
    then show ?thesis using less.prems by (simp add: confirm_loop_released)
  next
    case LOW
    note held = confirm_loop_held [of push s c e, OF LOW less.prems]
    show ?thesis
    proof (cases "400 < e")
      case True
      then show ?thesis using held less.prems by (simp add: delay_def)
    next
      case False
      have "\<exists>s'. confirm_loop push (delay 100 s) = Some s' \<and> clock s' \<le> c + 600
                \<and> clock (delay 100 s) \<le> clock s'"
        using False less.prems
        by (intro less.hyps [of "e + 100"]) (simp_all add: delay_def)
      then show ?thesis using held False by (auto simp: delay_def)
    qed
  qed
qed

lemma confirm_loop_held_polls:
  assumes "\<forall>j<k. push (clock s + 100 * j) = LOW"
    and "clock s = c + e" and "powerPressedStartTime s = of_nat c" and "e + 100 * k \<le> 500"
  shows "confirm_loop push s = confirm_loop push (s\<lparr>clock := clock s + 100 * k\<rparr>)"
  using assms
proof (induction k arbitrary: s e)
  case 0
  have "s\<lparr>clock := clock s + 100 * 0\<rparr> = s" by simp
  then show ?case by (simp only:)
next
  case (Suc k)
  from Suc.prems(1) have low: "push (clock s) = LOW" by (metis zero_less_Suc mult_0_right add_0_right)
  from Suc.prems have e: "e \<le> 500" "\<not> 400 < e" by simp_all
  have step: "confirm_loop push s = confirm_loop push (delay 100 s)"
    using confirm_loop_held [of push s c e, OF low Suc.prems(2) Suc.prems(3) e(1)] e(2) by simp
  have rest: "\<forall>j<k. push (clock (delay 100 s) + 100 * j) = LOW"
  proof (intro allI impI)
    fix j assume "j < k"
    then have "Suc j < Suc k" by simp
    with Suc.prems(1) have "push (clock s + 100 * Suc j) = LOW" by blast
    then show "push (clock (delay 100 s) + 100 * j) = LOW"
      by (simp add: delay_def add.commute add.left_commute)
  qed
  have "confirm_loop push (delay 100 s) =
          confirm_loop push ((delay 100 s)\<lparr>clock := clock (delay 100 s) + 100 * k\<rparr>)"
    using Suc.prems by (intro Suc.IH [of "delay 100 s" "e + 100"] rest) (simp_all add: delay_def)
  with step show ?case by (simp add: delay_def add.assoc)
qed

text \<open>A release first seen by the sample at 500 ms: the measured duration is 500,
  which is not below 500, and \<^verbatim>\<open>setup()\<close> goes on to normal operation.\<close>

lemma setup_released_at_500:
  assumes "\<forall>j<5. push (clock s + 100 * j) = LOW" and "push (clock s + 500) = HIGH"
  shows "setup_fn push s =
           Returned (s\<lparr>push_mode := INPUT_PULLUP, powerPressedStartTime := 0,
                       clock := clock s + 500, led_mode := OUTPUT, led_out := HIGH, rx := []\<rparr>)"
proof -
  let ?s2 = "s\<lparr>push_mode := INPUT_PULLUP, powerPressedStartTime := millis s\<rparr>"
  let ?s3 = "?s2\<lparr>clock := clock ?s2 + 100 * 5\<rparr>"
  have "confirm_loop push ?s2 = confirm_loop push ?s3"
    using assms(1)
    by (intro confirm_loop_held_polls [of 5 push ?s2 "clock s" 0]) (simp_all add: millis_def)
  also have "\<dots> = Some ?s3"
    using assms(2) by (intro confirm_loop_released) simp
  finally have ended: "confirm_loop push ?s2 = Some ?s3" .
  have "millis ?s3 - powerPressedStartTime ?s3 = of_nat 500"
    by (simp add: millis_def)
  then have "\<not> millis ?s3 - powerPressedStartTime ?s3 < 500"
    by simp
  with ended show ?thesis
    by (simp add: setup_fn_def and_then_def flush_rx_Nil millis_def)
qed

subsection \<open>The waiting loops of the lock test\<close>

lemma wait_for_press_returns:
  assumes "push (clock s + p) = LOW"
  shows "\<exists>p'\<le>p. wait_for_press push s = Some (s\<lparr>clock := clock s + p'\<rparr>)
            \<and> push (clock s + p') = LOW \<and> (\<forall>j<p'. push (clock s + j) = HIGH)"
  using assms
proof (induction p arbitrary: s)
  case 0
  then have "wait_for_press push s = Some s"
    by (subst wait_for_press.simps) (simp add: digitalRead_PUSH_def)
  with 0 show ?case by simp
next
  case (Suc p)
  show ?case
  proof (cases "push (clock s)")
    case LOW
    then have "wait_for_press push s = Some s"
      by (subst wait_for_press.simps) (simp add: digitalRead_PUSH_def)
    with LOW show ?thesis by (intro exI [of _ 0]) simp
  next
    case HIGH
    then have step: "wait_for_press push s = wait_for_press push (delay 1 s)"
      by (subst wait_for_press.simps) (simp add: digitalRead_PUSH_def)
    from Suc.prems have "push (clock (delay 1 s) + p) = LOW" by (simp add: delay_def)
    from Suc.IH [OF this] obtain p' where p': "p' \<le> p"
      "wait_for_press push (delay 1 s) = Some ((delay 1 s)\<lparr>clock := clock (delay 1 s) + p'\<rparr>)"
      "push (clock (delay 1 s) + p') = LOW"
      "\<forall>j<p'. push (clock (delay 1 s) + j) = HIGH" by blast
    have before: "\<forall>j<Suc p'. push (clock s + j) = HIGH"
    proof (intro allI impI)
      fix j assume j: "j < Suc p'"
      show "push (clock s + j) = HIGH"
      proof (cases j)
        case 0
        with HIGH show ?thesis by simp
      next
        case (Suc i)
        with j have "i < p'" by simp
        with p'(4) have "push (clock (delay 1 s) + i) = HIGH" by blast
        with Suc show ?thesis by (simp add: delay_def)
      qed
    qed
    from step p'(1,2,3) have "Suc p' \<le> Suc p
        \<and> wait_for_press push s = Some (s\<lparr>clock := clock s + Suc p'\<rparr>)
        \<and> push (clock s + Suc p') = LOW"
      by (simp add: delay_def)
    with before show ?thesis by blast
  qed
qed

lemma wait_for_release_returns:
  assumes "push (clock s + q) = HIGH" and "0 < q"
  shows "\<exists>q'\<le>q. 0 < q' \<and> wait_for_release push s = Some (s\<lparr>clock := clock s + q'\<rparr>)
            \<and> push (clock s + q') = HIGH"
  using assms
proof (induction q arbitrary: s)
  case 0
  then show ?case by simp
next
  case (Suc q)
  show ?case
  proof (cases "push (clock s + 1)")
    case HIGH
    then have "wait_for_release push s = Some (s\<lparr>clock := clock s + 1\<rparr>)"
      by (subst wait_for_release.simps) (simp add: digitalRead_PUSH_def delay_def)
    with HIGH show ?thesis by (intro exI [of _ 1]) simp
  next
    case LOW
    then have step: "wait_for_release push s = wait_for_release push (delay 1 s)"
      by (subst wait_for_release.simps) (simp add: digitalRead_PUSH_def delay_def)
    have q: "0 < q" using LOW Suc.prems(1) by (cases q) auto
    from Suc.prems have "push (clock (delay 1 s) + q) = HIGH" by (simp add: delay_def)
    from Suc.IH [OF this q] obtain q' where q': "q' \<le> q" "0 < q'"
      "wait_for_release push (delay 1 s) = Some ((delay 1 s)\<lparr>clock := clock (delay 1 s) + q'\<rparr>)"
      "push (clock (delay 1 s) + q') = HIGH" by blast
    with step show ?thesis
      by (intro exI [of _ "Suc q'"]) (simp add: delay_def)
  qed
qed

subsection \<open>One button check\<close>

lemma button_check_idle:
  "push (clock s) = HIGH \<Longrightarrow> powerPressedStartTime s = 0 \<Longrightarrow> button_check push s = Returned s"
  by (simp add: button_check_def digitalRead_PUSH_def)

lemma loop_no_command: "rx s = [] \<Longrightarrow> loop push s = button_check push s"
  by (simp add: loop_def serial_command_def and_then_def)

lemma button_check_release:
  assumes "push (clock s) = HIGH" and "powerPressedStartTime s \<noteq> 0"
  shows "button_check push s = Returned (s\<lparr>clock := clock s + 20, powerPressedStartTime := 0\<rparr>)"
  using assms
  by (simp add: button_check_def digitalRead_PUSH_def delay_def debounceDelay_def word_greater_zero_iff)

lemma button_check_held:
  assumes "push (clock s) = LOW" and "powerPressedStartTime s = of_nat T" and "(of_nat T :: ulong) \<noteq> 0"
    and "T \<le> clock s" and "push (clock s + 20) = HIGH \<or> clock s + 20 \<le> T + 2000"
  shows "button_check push s = Returned (s\<lparr>clock := clock s + 20\<rparr>)"
proof (cases "push (clock s + 20)")
  case HIGH
  then show ?thesis using assms(1,2,3)
    by (simp add: button_check_def digitalRead_PUSH_def delay_def debounceDelay_def
        word_greater_zero_iff)
next
  case LOW
  with assms(5) have near: "clock s + 20 \<le> T + 2000" by simp
  let ?s1 = "delay debounceDelay s"
  obtain k where k: "clock s = T + k" using assms(4) by (metis le_Suc_ex)
  then have "millis ?s1 - powerPressedStartTime ?s1 = of_nat (k + 20)"
    using assms(2) by (simp add: millis_def delay_def debounceDelay_def)
  moreover have "((2000 :: ulong) < of_nat (k + 20)) = (2000 < k + 20)"
    using near k by (intro ulong_2000_less) simp
  ultimately have "\<not> 2000 < millis ?s1 - powerPressedStartTime ?s1"
    using near k by simp
  then show ?thesis using assms(1,2,3)
    by (simp add: button_check_def digitalRead_PUSH_def Let_def word_greater_zero_iff)
      (simp add: delay_def debounceDelay_def)
qed

lemma button_check_released_clears:
  assumes "push (clock s) = HIGH"
  shows "\<exists>s'. button_check push s = Returned s' \<and> powerPressedStartTime s' = 0"
  using assms by (cases "powerPressedStartTime s = 0") (simp_all add: button_check_idle button_check_release)

lemma flicker_does_not_start_timer:
  assumes "powerPressedStartTime s = 0" and "push (clock s) = LOW" and "push (clock s + 20) = HIGH"
  shows "button_check push s = Returned (s\<lparr>clock := clock s + 20\<rparr>)"
  using assms by (simp add: button_check_def digitalRead_PUSH_def delay_def debounceDelay_def)

lemma flicker_does_not_power_down:
  assumes "powerPressedStartTime s \<noteq> 0" and "push (clock s) = LOW" and "push (clock s + 20) = HIGH"
  shows "button_check push s = Returned (s\<lparr>clock := clock s + 20\<rparr>)"
  using assms by (simp add: button_check_def digitalRead_PUSH_def delay_def debounceDelay_def
      word_greater_zero_iff)

lemma long_press_powers_down:
  assumes "powerPressedStartTime s \<noteq> 0" and "push (clock s) = LOW" and "push (clock s + 20) = LOW"
    and "2000 < millis (delay 20 s) - powerPressedStartTime s"
  shows "button_check push s = PoweredDown (powerDown_entry (s\<lparr>clock := clock s + 20\<rparr>))"
  using assms by (simp add: button_check_def digitalRead_PUSH_def delay_def debounceDelay_def
      powerDown_eq word_greater_zero_iff millis_def)

subsection \<open>Several passes of loop\<close>

lemma held_passes:
  assumes "rx s = []" and "powerPressedStartTime s = of_nat T" and "(of_nat T :: ulong) \<noteq> 0"
    and "T \<le> clock s" and "clock s + 20 * n \<le> T + 2000"
    and "\<forall>t. clock s \<le> t \<and> t \<le> clock s + 20 * n \<longrightarrow> push t = LOW"
  shows "loop_passes n push s = Returned (s\<lparr>clock := clock s + 20 * n\<rparr>)"
  using assms
proof (induction n arbitrary: s)
  case 0
  then show ?case by simp
next
  case (Suc n)
  let ?s1 = "s\<lparr>clock := clock s + 20\<rparr>"
  have low: "push (clock s) = LOW" using Suc.prems(6) by simp
  have near: "push (clock s + 20) = HIGH \<or> clock s + 20 \<le> T + 2000" using Suc.prems(5) by simp
  have step: "loop push s = Returned ?s1"
    using Suc.prems(1) button_check_held [OF low Suc.prems(2,3,4) near]
    by (simp add: loop_no_command)
  have "loop_passes n push ?s1 = Returned (?s1\<lparr>clock := clock ?s1 + 20 * n\<rparr>)"
    using Suc.prems by (intro Suc.IH) simp_all
  with step show ?case by (simp add: and_then_def add.assoc)
qed

lemma short_press_passes:
  assumes "rx s = []" and "powerPressedStartTime s = of_nat T" and "(of_nat T :: ulong) \<noteq> 0"
    and "T \<le> clock s" and "clock s < R + 20" and "R < T + 2000"
    and "\<forall>t. clock s \<le> t \<and> t < R \<longrightarrow> push t = LOW"
    and "\<forall>t. R \<le> t \<and> t < R + 20 \<longrightarrow> push t = HIGH"
  shows "\<exists>n. (\<forall>m\<le>n. loop_passes m push s = Returned (s\<lparr>clock := clock s + 20 * m\<rparr>))
             \<and> loop_passes (Suc n) push s =
                 Returned (s\<lparr>clock := clock s + 20 * Suc n, powerPressedStartTime := 0\<rparr>)"
  using assms
proof (induction "R - clock s" arbitrary: s rule: less_induct)
  case less
  show ?case
  proof (cases "R \<le> clock s")
    case True
    with less.prems have "push (clock s) = HIGH" by simp
    with less.prems have "loop push s = Returned (s\<lparr>clock := clock s + 20, powerPressedStartTime := 0\<rparr>)"
      by (simp add: loop_no_command button_check_release)
    then show ?thesis by (intro exI [of _ 0]) (simp add: and_then_def)
  next
    case False
    with less.prems have low: "push (clock s) = LOW" by simp
    let ?s1 = "s\<lparr>clock := clock s + 20\<rparr>"
    have far: "push (clock s + 20) = HIGH \<or> clock s + 20 \<le> T + 2000"
    proof (cases "R \<le> clock s + 20")
      case True
      with False less.prems(8) show ?thesis by simp
    next
      case False
      with less.prems(6) show ?thesis by simp
    qed
    have step: "loop push s = Returned ?s1"
      using less.prems(1) button_check_held [OF low less.prems(2,3,4) far]
      by (simp add: loop_no_command)
    have "\<exists>n. (\<forall>m\<le>n. loop_passes m push ?s1 = Returned (?s1\<lparr>clock := clock ?s1 + 20 * m\<rparr>))
             \<and> loop_passes (Suc n) push ?s1 =
               Returned (?s1\<lparr>clock := clock ?s1 + 20 * Suc n, powerPressedStartTime := 0\<rparr>)"
    proof (rule less.hyps)
      show "R - clock ?s1 < R - clock s" using False by simp
      show "rx ?s1 = []" using less.prems(1) by simp
      show "powerPressedStartTime ?s1 = of_nat T" using less.prems(2) by simp
      show "(of_nat T :: ulong) \<noteq> 0" by (rule less.prems(3))
      show "T \<le> clock ?s1" using less.prems(4) by simp
      show "clock ?s1 < R + 20" using False by simp
      show "R < T + 2000" by (rule less.prems(6))
      show "\<forall>t. clock ?s1 \<le> t \<and> t < R \<longrightarrow> push t = LOW" using less.prems(7) by simp
      show "\<forall>t. R \<le> t \<and> t < R + 20 \<longrightarrow> push t = HIGH" by (rule less.prems(8))
    qed
    then obtain n where n:
      "\<forall>m\<le>n. loop_passes m push ?s1 = Returned (?s1\<lparr>clock := clock ?s1 + 20 * m\<rparr>)"
      "loop_passes (Suc n) push ?s1 =
         Returned (?s1\<lparr>clock := clock ?s1 + 20 * Suc n, powerPressedStartTime := 0\<rparr>)"
      by blast
    have shift: "loop_passes (Suc m) push s = loop_passes m push ?s1" for m
      using step by (simp add: and_then_def)
    have mid: "\<forall>m\<le>Suc n. loop_passes m push s = Returned (s\<lparr>clock := clock s + 20 * m\<rparr>)"
    proof (intro allI impI)
      fix m assume m: "m \<le> Suc n"
      show "loop_passes m push s = Returned (s\<lparr>clock := clock s + 20 * m\<rparr>)"
      proof (cases m)
        case 0
        then show ?thesis by simp
      next
        case (Suc i)
        with m have "i \<le> n" by simp
        with n(1) have "loop_passes i push ?s1 = Returned (?s1\<lparr>clock := clock ?s1 + 20 * i\<rparr>)"
          by blast
        with Suc shift [of i] show ?thesis by simp
      qed
    qed
    have "loop_passes (Suc (Suc n)) push s =
            Returned (s\<lparr>clock := clock s + 20 * Suc (Suc n), powerPressedStartTime := 0\<rparr>)"
      using shift [of "Suc n"] n(2) by simp
    with mid show ?thesis by blast
  qed
qed

subsection \<open>The lock test\<close>

lemma lock_test_released:
  assumes "push (clock s + p) = LOW" and "0 < q" and "push (clock s + p + q) = HIGH"
  shows "\<exists>p' q'. p' \<le> p \<and> 0 < q' \<and> p' + q' \<le> p + q
           \<and> wait_for_press push s = Some (s\<lparr>clock := clock s + p'\<rparr>)
           \<and> push (clock s + p') = LOW \<and> (\<forall>j<p'. push (clock s + j) = HIGH)
           \<and> push (clock s + p' + q') = HIGH
           \<and> lock_test push s = Returned (s\<lparr>clock := clock s + p' + q', powerPressedStartTime := 0\<rparr>)"
proof -
  from wait_for_press_returns [of push s p, OF assms(1)] obtain p' where p': "p' \<le> p"
    "wait_for_press push s = Some (s\<lparr>clock := clock s + p'\<rparr>)" "push (clock s + p') = LOW"
    "\<forall>j<p'. push (clock s + j) = HIGH"
    by blast
  let ?s1 = "s\<lparr>clock := clock s + p'\<rparr>"
  let ?s2 = "?s1\<lparr>powerPressedStartTime := millis ?s1\<rparr>"
  have "0 < p + q - p'" using p'(1) assms(2) by simp
  moreover have "push (clock ?s2 + (p + q - p')) = HIGH" using p'(1) assms(3) by (simp add: add.assoc)
  ultimately obtain q' where q': "q' \<le> p + q - p'" "0 < q'"
    "wait_for_release push ?s2 = Some (?s2\<lparr>clock := clock ?s2 + q'\<rparr>)"
    "push (clock ?s2 + q') = HIGH"
    using wait_for_release_returns [of push ?s2 "p + q - p'"] by blast
  have "lock_test push s = Returned (s\<lparr>clock := clock s + p' + q', powerPressedStartTime := 0\<rparr>)"
    using p'(2) q'(3) by (simp add: lock_test_def lock_test_start_def)
  with p' q' show ?thesis
    by (intro exI [of _ p'] exI [of _ q']) (simp add: add.assoc)
qed

text \<open>Whenever the first waiting loop ends, it ends at the first sample that reads
  pressed and has changed nothing but the clock; so the timer started at line 104 holds
  the time of that sample.\<close>

lemma wait_for_press_Some:
  assumes "wait_for_press push s = Some s1"
  shows "\<exists>p'. s1 = s\<lparr>clock := clock s + p'\<rparr> \<and> push (clock s + p') = LOW
           \<and> (\<forall>j<p'. push (clock s + j) = HIGH)"
proof -
  let ?P = "\<lambda>(push :: button) s s1. \<exists>p'. s1 = s\<lparr>clock := clock s + p'\<rparr> \<and> push (clock s + p') = LOW
           \<and> (\<forall>j<p'. push (clock s + j) = HIGH)"
  show ?thesis
  proof (rule wait_for_press.raw_induct [where P = ?P, OF _ assms])
    fix f :: "button \<Rightarrow> state \<Rightarrow> state option" and push :: button and s s1 :: state
    assume IH: "\<And>b s y. f b s = Some y \<Longrightarrow> ?P b s y"
      and eq: "(if digitalRead_PUSH push s = HIGH then f push (delay 1 s) else Some s) = Some s1"
    show "?P push s s1"
    proof (cases "push (clock s)")
      case LOW
      with eq have "s1 = s" by (simp add: digitalRead_PUSH_def)
      with LOW show ?thesis by (intro exI [of _ 0]) simp
    next
      case HIGH
      with eq have "f push (delay 1 s) = Some s1" by (simp add: digitalRead_PUSH_def)
      from IH [OF this] obtain p' where p': "s1 = (delay 1 s)\<lparr>clock := clock (delay 1 s) + p'\<rparr>"
        "push (clock (delay 1 s) + p') = LOW" "\<forall>j<p'. push (clock (delay 1 s) + j) = HIGH" by blast
      have before: "\<forall>j<Suc p'. push (clock s + j) = HIGH"
      proof (intro allI impI)
        fix j assume j: "j < Suc p'"
        show "push (clock s + j) = HIGH"
        proof (cases j)
          case 0
          with HIGH show ?thesis by simp
        next
          case (Suc i)
          with j have "i < p'" by simp
          with p'(3) have "push (clock (delay 1 s) + i) = HIGH" by blast
          with Suc show ?thesis by (simp add: delay_def)
        qed
      qed
      from p'(1,2) have "s1 = s\<lparr>clock := clock s + Suc p'\<rparr> \<and> push (clock s + Suc p') = LOW"
        by (simp add: delay_def)
      with before show ?thesis by blast
    qed
  qed
qed

lemma lock_test_start_Some:
  assumes "lock_test_start push s = Some s2"
  shows "\<exists>p'. push (clock s + p') = LOW \<and> (\<forall>j<p'. push (clock s + j) = HIGH)
           \<and> s2 = s\<lparr>clock := clock s + p', powerPressedStartTime := of_nat (clock s + p')\<rparr>"
proof -
  from assms obtain s1 where s1: "wait_for_press push s = Some s1"
    "s2 = s1\<lparr>powerPressedStartTime := millis s1\<rparr>"
    by (auto simp: lock_test_start_def split: option.splits)
  from wait_for_press_Some [OF s1(1)] obtain p' where p': "s1 = s\<lparr>clock := clock s + p'\<rparr>"
    "push (clock s + p') = LOW" "\<forall>j<p'. push (clock s + j) = HIGH" by blast
  from s1(2) p'(1) have "s2 = s\<lparr>clock := clock s + p', powerPressedStartTime := of_nat (clock s + p')\<rparr>"
    by (simp add: millis_def)
  with p'(2,3) show ?thesis by blast
qed

subsection \<open>The timer between two passes\<close>

lemma button_check_timer_recent:
  assumes "button_check push s = Returned s'" and "powerPressedStartTime s' \<noteq> 0"
  shows "\<exists>t. t \<le> clock s' \<and> clock s' \<le> t + 20 \<and> push t = LOW"
proof (cases "push (clock s)")
  case HIGH
  with assms have False
    by (cases "powerPressedStartTime s = 0") (auto simp: button_check_idle button_check_release)
  then show ?thesis ..
next
  case LOW
  show ?thesis
  proof (cases "push (clock s + 20)")
    case HIGH
    with LOW assms(1) have "s' = s\<lparr>clock := clock s + 20\<rparr>"
      by (cases "powerPressedStartTime s = 0")
        (auto simp: flicker_does_not_start_timer flicker_does_not_power_down)
    with LOW show ?thesis by (intro exI [of _ "clock s"]) simp
  next
    case second: LOW
    from assms(1) have "clock s' = clock s + 20"
      using LOW second
      by (auto simp: button_check_def digitalRead_PUSH_def delay_def debounceDelay_def Let_def
          powerDown_eq word_greater_zero_iff split: if_splits)
    with second show ?thesis by (intro exI [of _ "clock s + 20"]) simp
  qed
qed

lemma button_check_PoweredDown:
  assumes "button_check push s = PoweredDown s'"
  shows "powerPressedStartTime s' = millis s' \<and> off_asserted s'"
  using assms
  by (auto simp: button_check_def Let_def powerDown_eq powerDown_entry_def millis_def
      off_asserted_def split: if_splits)

lemma lock_test_not_PoweredDown: "lock_test push s \<noteq> PoweredDown s'"
  by (simp add: lock_test_def split: option.splits)

lemma serial_command_PoweredDown:
  assumes "serial_command push s = PoweredDown s'"
  shows "powerPressedStartTime s' = millis s' \<and> off_asserted s'"
  using assms
  by (auto simp: serial_command_def Let_def powerDown_eq powerDown_entry_def millis_def
      off_asserted_def lock_test_not_PoweredDown split: list.splits if_splits)

lemma loop_timer_recent:
  assumes "loop push s = Returned s'" and "powerPressedStartTime s' \<noteq> 0"
  shows "\<exists>t. t \<le> clock s' \<and> clock s' \<le> t + 20 \<and> push t = LOW"
proof -
  from assms(1) obtain s1 where "button_check push s1 = Returned s'"
    by (auto simp: loop_def and_then_def split: outcome.splits)
  from button_check_timer_recent [OF this assms(2)] show ?thesis .
qed

lemma loop_PoweredDown:
  assumes "loop push s = PoweredDown s'"
  shows "powerPressedStartTime s' = millis s' \<and> off_asserted s'"
  using assms
  by (auto simp: loop_def and_then_def split: outcome.splits
      dest: serial_command_PoweredDown button_check_PoweredDown)

lemma setup_fn_Returned:
  assumes "setup_fn push s0 = Returned s"
  shows "powerPressedStartTime s = 0"
  using assms
  by (auto simp: setup_fn_def Let_def and_then_def powerDown_eq split: option.splits if_splits)

lemma setup_fn_PoweredDown:
  assumes "setup_fn push s0 = PoweredDown s"
  shows "powerPressedStartTime s = millis s \<and> off_asserted s"
  using assms
  by (auto simp: setup_fn_def Let_def and_then_def powerDown_eq powerDown_entry_def millis_def
      off_asserted_def split: option.splits if_splits)

lemma monitor_run_timer:
  "(monitor_run push s0 es = Returned s \<longrightarrow> powerPressedStartTime s \<noteq> 0 \<longrightarrow>
       (\<exists>t. t \<le> clock s \<and> clock s \<le> t + 20 \<and> push t = LOW))
   \<and> (monitor_run push s0 es = PoweredDown s \<longrightarrow>
       powerPressedStartTime s = millis s \<and> off_asserted s)"
proof (induction es arbitrary: s rule: rev_induct)
  case Nil
  show ?case
    using setup_fn_Returned [of push s0 s] setup_fn_PoweredDown [of push s0 s]
    by (auto simp: monitor_run_def)
next
  case (snoc e es)
  have run: "monitor_run push s0 (es @ [e]) = monitor_step push (monitor_run push s0 es) e"
    by (simp add: monitor_run_def)
  show ?case
  proof (cases "monitor_run push s0 es")
    case Hung
    with run show ?thesis by simp
  next
    case (PoweredDown s1)
    with run snoc.IH [of s1] show ?thesis by auto
  next
    case (Returned s1)
    show ?thesis
    proof (cases e)
      case Pass
      with run Returned have "monitor_run push s0 (es @ [e]) = loop push s1" by simp
      then show ?thesis
        using loop_timer_recent [of push s1 s] loop_PoweredDown [of push s1 s] by auto
    next
      case (Receive bytes)
      with run Returned have "monitor_run push s0 (es @ [e]) = Returned (s1\<lparr>rx := rx s1 @ bytes\<rparr>)"
        by simp
      then show ?thesis using snoc.IH [of s1] Returned by auto
    qed
  qed
qed

text \<open>Three evaluations at the example inputs.\<close>

lemma setup_fn_held_at_boot:
  "setup_fn always_pressed boot_state = Returned (running_state 600 0 [])"
proof -
  let ?s2 = "boot_state\<lparr>push_mode := INPUT_PULLUP, powerPressedStartTime := millis boot_state\<rparr>"
  let ?s3 = "?s2\<lparr>clock := clock ?s2 + 100 * 5\<rparr>"
  have "confirm_loop always_pressed ?s2 = confirm_loop always_pressed ?s3"
    by (intro confirm_loop_held_polls [of 5 always_pressed ?s2 "clock boot_state" 0])
      (simp_all add: millis_def always_pressed_def)
  also have "\<dots> = Some (delay 100 ?s3)"
    using confirm_loop_held [of always_pressed ?s3 "clock boot_state" 500]
    by (simp add: millis_def always_pressed_def)
  finally have ended: "confirm_loop always_pressed ?s2 = Some (delay 100 ?s3)" .
  have "millis (delay 100 ?s3) - powerPressedStartTime (delay 100 ?s3) = of_nat 600"
    by (simp add: millis_def delay_def)
  then have "\<not> millis (delay 100 ?s3) - powerPressedStartTime (delay 100 ?s3) < 500"
    by simp
  with ended show ?thesis
    by (simp add: setup_fn_def delay_def and_then_def flush_rx_Nil millis_def boot_state_def
        running_state_def)
qed

lemma first_pass_starts_timer:
  "loop always_pressed (running_state 600 0 []) = Returned (running_state 620 620 [])"
  by (simp add: loop_def serial_command_def and_then_def button_check_def running_state_def
      digitalRead_PUSH_def always_pressed_def delay_def debounceDelay_def millis_def)

lemma setup_fn_released_at_boot:
  "setup_fn always_released boot_state =
     PoweredDown \<lparr>clock = 0, powerPressedStartTime = 0, rx = [], push_mode = INPUT_PULLUP,
                   led_mode = INPUT, led_out = LOW, off_mode = OUTPUT, off_out = HIGH\<rparr>"
proof -
  let ?s2 = "boot_state\<lparr>push_mode := INPUT_PULLUP, powerPressedStartTime := millis boot_state\<rparr>"
  have "confirm_loop always_released ?s2 = Some ?s2"
    by (intro confirm_loop_released) (simp add: always_released_def)
  then show ?thesis
    by (simp add: setup_fn_def and_then_def millis_def boot_state_def powerDown_eq
        powerDown_entry_def)
qed

section \<open>The claims of the specification\<close>

subsection \<open>C1: power-down after a hold of 2000 ms\<close>

text \<open>
  C1 says that a press held with the timer running powers the system down as soon as the
  held duration reaches 2000 ms, the duration 2000 ms itself included. The comment at
  line 136 says the same (\<^verbatim>\<open>held for >= 2 seconds\<close>), but the test on that line is
  \<^verbatim>\<open>(millis() - powerPressedStartTime) > 2000\<close>. With the timer started at 1000 and the
  button held, the hundred passes of \<^verbatim>\<open>loop()\<close> that follow all return; the last of them
  starts at 2980, measures exactly 2000 ms after its debounce delay, and returns without
  calling \<^verbatim>\<open>powerDown()\<close>: the OFF line is not driven.
\<close>

theorem C1_exact_2000_not_powered_down:
  "loop_passes 100 always_pressed (running_state 1000 1000 []) = Returned (running_state 3000 1000 [])
   \<and> loop always_pressed (running_state 2980 1000 []) = Returned (running_state 3000 1000 [])
   \<and> millis (running_state 3000 1000 []) - powerPressedStartTime (running_state 3000 1000 []) = 2000
   \<and> \<not> off_asserted (running_state 3000 1000 [])"
proof (intro conjI)
  have "loop_passes 100 always_pressed (running_state 1000 1000 []) =
     Returned ((running_state 1000 1000 [])\<lparr>clock := clock (running_state 1000 1000 []) + 20 * 100\<rparr>)"
    by (rule held_passes [where T = 1000]) (simp_all add: running_state_def always_pressed_def)
  then show "loop_passes 100 always_pressed (running_state 1000 1000 []) =
      Returned (running_state 3000 1000 [])"
    by (simp add: running_state_def)
  show "loop always_pressed (running_state 2980 1000 []) = Returned (running_state 3000 1000 [])"
    by (simp add: loop_def serial_command_def and_then_def button_check_def running_state_def
        digitalRead_PUSH_def always_pressed_def delay_def debounceDelay_def millis_def)
  show "millis (running_state 3000 1000 []) - powerPressedStartTime (running_state 3000 1000 []) = 2000"
    by (simp add: running_state_def millis_def)
  show "\<not> off_asserted (running_state 3000 1000 [])"
    by (simp add: running_state_def off_asserted_def)
qed

text \<open>The pass after that measures 2020 ms and powers down (lemma
  \<open>long_press_powers_down\<close> gives the general case of a measured duration above 2000).\<close>

subsection \<open>C2: a tap during the start-up confirmation\<close>

text \<open>
  C2: during the start-up confirmation, when the button is released so that the measured
  held duration is below 500 ms, \<^verbatim>\<open>setup()\<close> powers down at once and does not go on to
  normal operation. The confirmation loop samples the button every 100 ms; if the sample
  number \<open>k\<close> (counting from 0, with \<open>k < 5\<close>) is the first that reads released, the loop
  ends there, the duration measured at line 63 is \<open>100 * k\<close> ms, which is below 500, and
  the call ends inside \<^verbatim>\<open>powerDown()\<close> with the OFF line driven high.
\<close>

theorem C2_tap_powers_down:
  assumes "k < 5" and "\<forall>j<k. push (clock s + 100 * j) = LOW"
    and "push (clock s + 100 * k) = HIGH"
  shows "\<exists>s3. confirm_loop push (s\<lparr>push_mode := INPUT_PULLUP, powerPressedStartTime := millis s\<rparr>) = Some s3
           \<and> millis s3 - powerPressedStartTime s3 = of_nat (100 * k)
           \<and> millis s3 - powerPressedStartTime s3 < 500
           \<and> setup_fn push s = PoweredDown (powerDown_entry s3)
           \<and> off_asserted (powerDown_entry s3)"
proof -
  let ?s2 = "s\<lparr>push_mode := INPUT_PULLUP, powerPressedStartTime := millis s\<rparr>"
  let ?s3 = "?s2\<lparr>clock := clock ?s2 + 100 * k\<rparr>"
  have "confirm_loop push ?s2 = confirm_loop push ?s3"
    using assms by (intro confirm_loop_held_polls [of k push ?s2 "clock s" 0]) (simp_all add: millis_def)
  also have "\<dots> = Some ?s3"
    using assms(3) by (intro confirm_loop_released) simp
  finally have loop: "confirm_loop push ?s2 = Some ?s3" .
  have d: "millis ?s3 - powerPressedStartTime ?s3 = of_nat (100 * k)"
    by (simp add: millis_def)
  have "((of_nat (100 * k) :: ulong) < 500) = (100 * k < 500)"
    using assms(1) by (intro ulong_less_500) simp
  with d have short: "millis ?s3 - powerPressedStartTime ?s3 < 500"
    using assms(1) by simp
  have "setup_fn push s = PoweredDown (powerDown_entry ?s3)"
    using loop short by (simp add: setup_fn_def millis_def powerDown_eq and_then_def)
  moreover have "off_asserted (powerDown_entry ?s3)"
    by (simp add: off_asserted_def powerDown_entry_def)
  ultimately show ?thesis using loop d short by blast
qed

theorem C2_tap_powers_down_witness:
  "(2::nat) < 5
   \<and> pressed_between 0 150 (clock boot_state + 100 * 0) = LOW
   \<and> pressed_between 0 150 (clock boot_state + 100 * 1) = LOW
   \<and> pressed_between 0 150 (clock boot_state + 100 * 2) = HIGH
   \<and> (\<exists>s3. setup_fn (pressed_between 0 150) boot_state = PoweredDown (powerDown_entry s3)
          \<and> millis s3 - powerPressedStartTime s3 = 200
          \<and> off_asserted (powerDown_entry s3))"
proof -
  have h1: "(2::nat) < 5" by simp
  have h2: "\<forall>j<2. pressed_between 0 150 (clock boot_state + 100 * j) = LOW"
    by (simp add: pressed_between_def boot_state_def)
  have h3: "pressed_between 0 150 (clock boot_state + 100 * 2) = HIGH"
    by (simp add: pressed_between_def boot_state_def)
  have h2': "pressed_between 0 150 (clock boot_state + 100 * 0) = LOW
      \<and> pressed_between 0 150 (clock boot_state + 100 * 1) = LOW"
    by (simp add: pressed_between_def boot_state_def)
  from C2_tap_powers_down [OF h1 h2 h3]
  have "\<exists>s3. setup_fn (pressed_between 0 150) boot_state = PoweredDown (powerDown_entry s3)
          \<and> millis s3 - powerPressedStartTime s3 = 200
          \<and> off_asserted (powerDown_entry s3)" by auto
  with h1 h2' h3 show ?thesis by blast
qed

subsection \<open>C3: a hold during the start-up confirmation\<close>

text \<open>
  C3: when the button is still pressed 500 ms after the start of \<^verbatim>\<open>setup()\<close>, having
  been pressed throughout, \<^verbatim>\<open>setup()\<close> returns into normal operation with the timer reset
  to 0. It returns 600 ms after its start, with the status LED on, the receive buffer
  empty and the OFF pin untouched.
\<close>

theorem C3_hold_enters_running:
  assumes "\<forall>t\<le>500. push (clock s + t) = LOW"
  shows "setup_fn push s =
           Returned (s\<lparr>push_mode := INPUT_PULLUP, powerPressedStartTime := 0,
                       clock := clock s + 600, led_mode := OUTPUT, led_out := HIGH, rx := []\<rparr>)"
proof -
  let ?s2 = "s\<lparr>push_mode := INPUT_PULLUP, powerPressedStartTime := millis s\<rparr>"
  let ?s3 = "?s2\<lparr>clock := clock ?s2 + 100 * 5\<rparr>"
  have "confirm_loop push ?s2 = confirm_loop push ?s3"
    using assms by (intro confirm_loop_held_polls [of 5 push ?s2 "clock s" 0]) (simp_all add: millis_def)
  also have "\<dots> = Some (delay 100 ?s3)"
    using assms confirm_loop_held [of push ?s3 "clock s" 500] by (simp add: millis_def)
  finally have loop: "confirm_loop push ?s2 = Some (delay 100 ?s3)" .
  have "millis (delay 100 ?s3) - powerPressedStartTime (delay 100 ?s3) = of_nat 600"
    by (simp add: millis_def delay_def)
  then have "\<not> millis (delay 100 ?s3) - powerPressedStartTime (delay 100 ?s3) < 500"
    by simp
  with loop show ?thesis
    by (simp add: setup_fn_def delay_def and_then_def flush_rx_Nil millis_def)
qed

theorem C3_hold_enters_running_witness:
  "always_pressed (clock boot_state + 0) = LOW
   \<and> always_pressed (clock boot_state + 500) = LOW
   \<and> setup_fn always_pressed boot_state =
       Returned \<lparr>clock = 600, powerPressedStartTime = 0, rx = [], push_mode = INPUT_PULLUP,
                 led_mode = OUTPUT, led_out = HIGH, off_mode = INPUT, off_out = LOW\<rparr>"
proof -
  have h: "\<forall>t\<le>500. always_pressed (clock boot_state + t) = LOW"
    by (simp add: always_pressed_def)
  have h': "always_pressed (clock boot_state + 0) = LOW
      \<and> always_pressed (clock boot_state + 500) = LOW"
    by (simp add: always_pressed_def)
  from C3_hold_enters_running [OF h]
  have "setup_fn always_pressed boot_state =
       Returned \<lparr>clock = 600, powerPressedStartTime = 0, rx = [], push_mode = INPUT_PULLUP,
                 led_mode = OUTPUT, led_out = HIGH, off_mode = INPUT, off_out = LOW\<rparr>"
    by (simp add: boot_state_def)
  with h' show ?thesis by blast
qed

subsection \<open>C4: a short press in normal operation\<close>

text \<open>
  C4: in normal operation, a press held for less than 2000 ms and then released causes no
  power action, and the timer is reset to 0. Here the timer was started at time \<open>T\<close>
  (so it holds \<open>T\<close> truncated to 32 bits, which is not the unset value), the button stays
  pressed until time \<open>R\<close>, less than 2000 ms after \<open>T\<close>, and reads released from \<open>R\<close> for
  at least the 20 ms until the next pass samples it; no console command is pending, and
  the state \<open>s\<close> is one in which a pass starts during the press or within those 20 ms.
  Then
  every pass of \<^verbatim>\<open>loop()\<close> up to the release returns with timer and pins unchanged, and
  the pass that first samples the released button returns with the timer 0 and the pins
  still unchanged, so the OFF line is driven after it only if it was before.
\<close>

theorem C4_short_press_no_power_action:
  assumes "rx s = []" and "powerPressedStartTime s = of_nat T" and "(of_nat T :: ulong) \<noteq> 0"
    and "T \<le> clock s" and "clock s < R + 20" and "R < T + 2000"
    and "\<forall>t. clock s \<le> t \<and> t < R \<longrightarrow> push t = LOW"
    and "\<forall>t. R \<le> t \<and> t < R + 20 \<longrightarrow> push t = HIGH"
  shows "\<exists>n. (\<forall>m\<le>n. loop_passes m push s = Returned (s\<lparr>clock := clock s + 20 * m\<rparr>)
                  \<and> off_asserted (s\<lparr>clock := clock s + 20 * m\<rparr>) = off_asserted s)
             \<and> loop_passes (Suc n) push s =
                 Returned (s\<lparr>clock := clock s + 20 * Suc n, powerPressedStartTime := 0\<rparr>)
             \<and> off_asserted (s\<lparr>clock := clock s + 20 * Suc n, powerPressedStartTime := 0\<rparr>)
                 = off_asserted s"
  using short_press_passes [OF assms] by (simp add: off_asserted_def)

theorem C4_short_press_no_power_action_witness:
  "rx (running_state 1000 1000 []) = []
   \<and> powerPressedStartTime (running_state 1000 1000 []) = of_nat 1000
   \<and> (of_nat 1000 :: ulong) \<noteq> 0
   \<and> 1000 \<le> clock (running_state 1000 1000 [])
   \<and> clock (running_state 1000 1000 []) < 1500 + 20
   \<and> (1500::nat) < 1000 + 2000
   \<and> pressed_between 0 1500 1000 = LOW \<and> pressed_between 0 1500 1499 = LOW
   \<and> pressed_between 0 1500 1500 = HIGH \<and> pressed_between 0 1500 1519 = HIGH
   \<and> (\<exists>n. loop_passes (Suc n) (pressed_between 0 1500) (running_state 1000 1000 []) =
             Returned (running_state (1000 + 20 * Suc n) 0 [])
           \<and> \<not> off_asserted (running_state (1000 + 20 * Suc n) 0 []))"
proof -
  let ?s = "running_state 1000 1000 []"
  have h1: "rx ?s = []" by (simp add: running_state_def)
  have h2: "powerPressedStartTime ?s = of_nat 1000" by (simp add: running_state_def)
  have h3: "(of_nat 1000 :: ulong) \<noteq> 0" by simp
  have h4: "1000 \<le> clock ?s" by (simp add: running_state_def)
  have h5: "clock ?s < 1500 + 20" by (simp add: running_state_def)
  have h6: "(1500::nat) < 1000 + 2000" by simp
  have h7: "\<forall>t. clock ?s \<le> t \<and> t < 1500 \<longrightarrow> pressed_between 0 1500 t = LOW"
    by (simp add: pressed_between_def)
  have h8: "\<forall>t. 1500 \<le> t \<and> t < 1500 + 20 \<longrightarrow> pressed_between 0 1500 t = HIGH"
    by (simp add: pressed_between_def)
  from C4_short_press_no_power_action [OF h1 h2 h3 h4 h5 h6 h7 h8]
  obtain n where "loop_passes (Suc n) (pressed_between 0 1500) ?s =
      Returned (?s\<lparr>clock := clock ?s + 20 * Suc n, powerPressedStartTime := 0\<rparr>)" by blast
  then have "loop_passes (Suc n) (pressed_between 0 1500) ?s =
             Returned (running_state (1000 + 20 * Suc n) 0 [])
           \<and> \<not> off_asserted (running_state (1000 + 20 * Suc n) 0 [])"
    by (simp add: running_state_def off_asserted_def)
  then have "\<exists>n. loop_passes (Suc n) (pressed_between 0 1500) ?s =
             Returned (running_state (1000 + 20 * Suc n) 0 [])
           \<and> \<not> off_asserted (running_state (1000 + 20 * Suc n) 0 [])" ..
  moreover have "pressed_between 0 1500 1000 = LOW \<and> pressed_between 0 1500 1499 = LOW
      \<and> pressed_between 0 1500 1500 = HIGH \<and> pressed_between 0 1500 1519 = HIGH"
    by (simp add: pressed_between_def)
  ultimately show ?thesis using h1 h2 h3 h4 h5 h6 by blast
qed

subsection \<open>C5: when the timer is set\<close>

text \<open>
  C5 says that in every reachable state the timer is non-zero only while the input reads
  pressed, and that it is cleared at once on release and on a power action. Two things in
  the code are otherwise. First, \<^verbatim>\<open>powerDown()\<close> does not clear the timer: it assigns
  \<^verbatim>\<open>millis()\<close> to it at line 165 (the value the timing printout is measured from); after
  the command \<^verbatim>\<open>'z'\<close> at time 5000, with the button released all the time, control is in
  \<^verbatim>\<open>powerDown()\<close> with the timer 5000 while the input reads released. Second, the button
  is polled, and a release is accepted only when a pass has sampled it: with the timer
  running since 1000 and the button released at 1490, the pass that starts at 1480 samples
  pressed, then released, and returns at 1500 with the timer still 1000 while the input
  reads released.
\<close>

theorem C5_timer_nonzero_while_released:
  "loop always_released (running_state 5000 0 [CHR ''z'']) =
     PoweredDown \<lparr>clock = 5000, powerPressedStartTime = 5000, rx = [], push_mode = INPUT_PULLUP,
                   led_mode = OUTPUT, led_out = LOW, off_mode = OUTPUT, off_out = HIGH\<rparr>
   \<and> always_released 5000 = HIGH \<and> (5000 :: ulong) \<noteq> 0
   \<and> loop (pressed_between 0 1490) (running_state 1480 1000 []) = Returned (running_state 1500 1000 [])
   \<and> pressed_between 0 1490 1500 = HIGH
   \<and> powerPressedStartTime (running_state 1500 1000 []) \<noteq> 0"
proof (intro conjI)
  show "loop always_released (running_state 5000 0 [CHR ''z'']) =
     PoweredDown \<lparr>clock = 5000, powerPressedStartTime = 5000, rx = [], push_mode = INPUT_PULLUP,
                   led_mode = OUTPUT, led_out = LOW, off_mode = OUTPUT, off_out = HIGH\<rparr>"
    by (simp add: loop_def serial_command_def and_then_def powerDown_eq powerDown_entry_def
        running_state_def millis_def)
  show "always_released 5000 = HIGH" by (simp add: always_released_def)
  show "(5000 :: ulong) \<noteq> 0" by simp
  show "loop (pressed_between 0 1490) (running_state 1480 1000 []) =
      Returned (running_state 1500 1000 [])"
    by (simp add: loop_def serial_command_def and_then_def button_check_def running_state_def
        digitalRead_PUSH_def pressed_between_def delay_def debounceDelay_def)
  show "pressed_between 0 1490 1500 = HIGH" by (simp add: pressed_between_def)
  show "powerPressedStartTime (running_state 1500 1000 []) \<noteq> 0" by (simp add: running_state_def)
qed

text \<open>
  C5 as amended. In every state that a run of the sketch reaches between two passes of
  \<^verbatim>\<open>loop()\<close> (after \<^verbatim>\<open>setup()\<close> and any number of passes, with console bytes arriving in
  between): when the last call has returned, the timer is non-zero only if the input read
  pressed at some time within the last 20 ms; when control is in \<^verbatim>\<open>powerDown()\<close>, the
  timer is not cleared but holds the \<^verbatim>\<open>millis()\<close> of the entry, and the OFF line is
  driven high. A pass of \<^verbatim>\<open>loop()\<close> whose button check samples the input released, and
  released again after the settle delay of 20 ms, returns with the timer 0. The button
  check of a pass starts in the state \<open>a1\<close> that the console commands return. What a
  pass does with the timer when the second sample reads pressed again is the subject of
  C6 and is not part of this statement.
\<close>

theorem C5_timer_in_reachable_states:
  "(monitor_run push s0 es = Returned s \<and> powerPressedStartTime s \<noteq> 0 \<longrightarrow>
       (\<exists>t. t \<le> clock s \<and> clock s \<le> t + 20 \<and> push t = LOW))
   \<and> (monitor_run push s0 es = PoweredDown s \<longrightarrow>
       powerPressedStartTime s = millis s \<and> off_asserted s)
   \<and> (serial_command push a = Returned a1 \<and> push (clock a1) = HIGH \<and> push (clock a1 + 20) = HIGH
       \<longrightarrow> (\<exists>a'. loop push a = Returned a' \<and> powerPressedStartTime a' = 0))
   \<and> powerDown d = PoweredDown (powerDown_entry d)
   \<and> powerPressedStartTime (powerDown_entry d) = millis d"
proof (intro conjI impI)
  assume "monitor_run push s0 es = Returned s \<and> powerPressedStartTime s \<noteq> 0"
  with monitor_run_timer [of push s0 es s]
  show "\<exists>t. t \<le> clock s \<and> clock s \<le> t + 20 \<and> push t = LOW" by blast
next
  assume "monitor_run push s0 es = PoweredDown s"
  with monitor_run_timer [of push s0 es s]
  show "powerPressedStartTime s = millis s" and "off_asserted s" by blast+
next
  assume rel: "serial_command push a = Returned a1 \<and> push (clock a1) = HIGH
      \<and> push (clock a1 + 20) = HIGH"
  then have "loop push a = button_check push a1" by (auto simp: loop_def and_then_def)
  with rel button_check_released_clears [of push a1]
  show "\<exists>a'. loop push a = Returned a' \<and> powerPressedStartTime a' = 0" by simp
next
  show "powerDown d = PoweredDown (powerDown_entry d)" by (rule powerDown_eq)
next
  show "powerPressedStartTime (powerDown_entry d) = millis d" by (simp add: powerDown_entry_def)
qed

theorem C5_timer_in_reachable_states_witness:
  "monitor_run always_pressed boot_state [Pass] = Returned (running_state 620 620 [])
   \<and> powerPressedStartTime (running_state 620 620 []) \<noteq> 0
   \<and> (\<exists>t. t \<le> clock (running_state 620 620 []) \<and> clock (running_state 620 620 []) \<le> t + 20
          \<and> always_pressed t = LOW)
   \<and> monitor_run always_released boot_state [] =
       PoweredDown \<lparr>clock = 0, powerPressedStartTime = 0, rx = [], push_mode = INPUT_PULLUP,
                     led_mode = INPUT, led_out = LOW, off_mode = OUTPUT, off_out = HIGH\<rparr>
   \<and> off_asserted \<lparr>clock = 0, powerPressedStartTime = 0, rx = [], push_mode = INPUT_PULLUP,
                     led_mode = INPUT, led_out = LOW, off_mode = OUTPUT, off_out = HIGH\<rparr>
   \<and> serial_command (pressed_between 0 1500) (running_state 1500 1000 []) =
       Returned (running_state 1500 1000 [])
   \<and> pressed_between 0 1500 (clock (running_state 1500 1000 [])) = HIGH
   \<and> pressed_between 0 1500 (clock (running_state 1500 1000 []) + 20) = HIGH
   \<and> (\<exists>s''. loop (pressed_between 0 1500) (running_state 1500 1000 []) = Returned s''
          \<and> powerPressedStartTime s'' = 0)"
proof -
  let ?r = "running_state 620 620 []" and ?s = "running_state 1500 1000 []"
  let ?p = "pressed_between 0 1500"
  let ?pd = "\<lparr>clock = 0, powerPressedStartTime = 0, rx = [], push_mode = INPUT_PULLUP,
              led_mode = INPUT, led_out = LOW, off_mode = OUTPUT, off_out = HIGH\<rparr>"
  have h1: "monitor_run always_pressed boot_state [Pass] = Returned ?r"
    by (simp add: monitor_run_def setup_fn_held_at_boot first_pass_starts_timer)
  have h2: "powerPressedStartTime ?r \<noteq> 0" by (simp add: running_state_def)
  have h3: "monitor_run always_released boot_state [] = PoweredDown ?pd"
    by (simp add: monitor_run_def setup_fn_released_at_boot)
  have h4: "serial_command ?p ?s = Returned ?s"
    by (simp add: serial_command_def running_state_def)
  have h5: "?p (clock ?s) = HIGH" "?p (clock ?s + 20) = HIGH"
    by (simp_all add: pressed_between_def running_state_def)
  from C5_timer_in_reachable_states
    [where push = always_pressed and ?s0.0 = boot_state and es = "[Pass]" and s = ?r] h1 h2
  have a: "\<exists>t. t \<le> clock ?r \<and> clock ?r \<le> t + 20 \<and> always_pressed t = LOW" by blast
  from C5_timer_in_reachable_states
    [where push = always_released and ?s0.0 = boot_state and es = "[]" and s = ?pd] h3
  have b: "off_asserted ?pd" by blast
  from C5_timer_in_reachable_states [where push = ?p and a = ?s and ?a1.0 = ?s] h4 h5
  have c: "\<exists>s''. loop ?p ?s = Returned s'' \<and> powerPressedStartTime s'' = 0" by blast
  from h1 h2 a h3 b h4 h5 c show ?thesis by blast
qed

subsection \<open>C6: a flicker shorter than the settle interval\<close>

text \<open>
  C6: a flicker of the input that is over when the input is sampled again after the
  20 ms settle delay is not treated as a change of state: it starts no timer, resets no
  timer and triggers no power action. The first two branches of the button check act
  only if the second sample confirms the first (lemmas \<open>flicker_does_not_start_timer\<close>
  and \<open>flicker_does_not_power_down\<close>). The third branch takes the second sample at
  line 147 too, but that sample guards only the printout: the assignment at line 152
  stands after the inner \<^verbatim>\<open>if\<close>, so the timer is reset whatever the second sample reads.
  With the timer running since 1000 and the button held, a flicker to released from 1500
  to 1510 resets the timer in the pass that starts at 1500, although the input reads
  pressed again at 1520.
\<close>

theorem C6_flicker_resets_timer:
  "released_between 1500 1510 1500 = HIGH \<and> released_between 1500 1510 1520 = LOW
   \<and> loop (released_between 1500 1510) (running_state 1500 1000 []) =
       Returned (running_state 1520 0 [])"
  by (simp add: loop_def serial_command_def and_then_def button_check_def running_state_def
      digitalRead_PUSH_def released_between_def delay_def debounceDelay_def millis_def)

subsection \<open>C7: power-down is terminal\<close>

text \<open>
  C7: once \<^verbatim>\<open>powerDown()\<close> is entered, it is never left, and the OFF line stays driven
  high. The call does not return (its loop has the result \<open>None\<close> from the entry state
  and from the state after any number \<open>n\<close> of passes), each pass changes only the clock,
  and the OFF pin is an output at level high after every number of passes. The loop reads
  neither the button nor the console, so this holds whatever the inputs do.
\<close>

theorem C7_power_down_is_terminal:
  "powerDown s = PoweredDown (powerDown_entry s)
   \<and> off_asserted (powerDown_entry s)
   \<and> powerDown_loop (powerDown_entry s) = None
   \<and> powerDown_loop (powerDown_ticks n (powerDown_entry s)) = None
   \<and> powerDown_ticks n (powerDown_entry s) = (powerDown_entry s)\<lparr>clock := clock s + n\<rparr>
   \<and> off_asserted (powerDown_ticks n (powerDown_entry s))"
  by (simp add: powerDown_eq powerDown_loop_None ticks_fields off_asserted_def powerDown_entry_def)

subsection \<open>C8: the console command z\<close>

text \<open>
  C8: in normal operation the single character \<^verbatim>\<open>'z'\<close> on the console forces a
  power-down. Whatever the state and the button, a pass of \<^verbatim>\<open>loop()\<close> that finds
  \<^verbatim>\<open>'z'\<close> as the oldest byte of the receive buffer ends inside \<^verbatim>\<open>powerDown()\<close> with the
  OFF line driven high.
\<close>

theorem C8_z_forces_power_down:
  "loop push (s\<lparr>rx := CHR ''z'' # cs\<rparr>) = PoweredDown (powerDown_entry (s\<lparr>rx := cs\<rparr>))
   \<and> off_asserted (powerDown_entry (s\<lparr>rx := cs\<rparr>))"
proof
  show "loop push (s\<lparr>rx := CHR ''z'' # cs\<rparr>) = PoweredDown (powerDown_entry (s\<lparr>rx := cs\<rparr>))"
    by (simp add: loop_def serial_command_def powerDown_eq and_then_def)
  show "off_asserted (powerDown_entry (s\<lparr>rx := cs\<rparr>))"
    by (simp add: off_asserted_def powerDown_entry_def)
qed

subsection \<open>C9: the start-up confirmation terminates\<close>

text \<open>
  C9: the confirmation loop of \<^verbatim>\<open>setup()\<close> ends for every button trace, at most 600 ms
  after the start of \<^verbatim>\<open>setup()\<close>, so \<^verbatim>\<open>setup()\<close> never hangs in it; with the button held
  forever it ends exactly 600 ms after the start.
\<close>

theorem C9_confirmation_terminates:
  "(\<exists>s'. confirm_loop push (s\<lparr>push_mode := INPUT_PULLUP, powerPressedStartTime := millis s\<rparr>) = Some s'
        \<and> clock s' \<le> clock s + 600)
   \<and> setup_fn push s \<noteq> Hung
   \<and> confirm_loop always_pressed (s\<lparr>push_mode := INPUT_PULLUP, powerPressedStartTime := millis s\<rparr>)
       = Some (s\<lparr>push_mode := INPUT_PULLUP, powerPressedStartTime := millis s, clock := clock s + 600\<rparr>)"
proof (intro conjI)
  let ?s2 = "s\<lparr>push_mode := INPUT_PULLUP, powerPressedStartTime := millis s\<rparr>"
  have "\<exists>s'. confirm_loop push ?s2 = Some s' \<and> clock s' \<le> clock s + 600 \<and> clock ?s2 \<le> clock s'"
    by (rule confirm_loop_total [of ?s2 "clock s" 0]) (simp_all add: millis_def)
  then obtain s' where s': "confirm_loop push ?s2 = Some s'" "clock s' \<le> clock s + 600" by blast
  then show "\<exists>s'. confirm_loop push ?s2 = Some s' \<and> clock s' \<le> clock s + 600" by blast
  from s'(1) show "setup_fn push s \<noteq> Hung"
    by (simp add: setup_fn_def millis_def powerDown_eq and_then_def Let_def)
  let ?s3 = "?s2\<lparr>clock := clock ?s2 + 100 * 5\<rparr>"
  have "confirm_loop always_pressed ?s2 = confirm_loop always_pressed ?s3"
    by (intro confirm_loop_held_polls [of 5 always_pressed ?s2 "clock s" 0])
      (simp_all add: millis_def always_pressed_def)
  also have "\<dots> = Some (delay 100 ?s3)"
    using confirm_loop_held [of always_pressed ?s3 "clock s" 500]
    by (simp add: millis_def always_pressed_def)
  finally show "confirm_loop always_pressed ?s2 =
      Some (s\<lparr>push_mode := INPUT_PULLUP, powerPressedStartTime := millis s, clock := clock s + 600\<rparr>)"
    by (simp add: delay_def)
qed

subsection \<open>C10: the lock test can be left\<close>

text \<open>
  C10: after the command \<^verbatim>\<open>'r'\<close>, the lock test starts its timing only once the button
  has been seen pressed, and if the button is released afterwards the pass of \<^verbatim>\<open>loop()\<close>
  leaves the lock test, resets the timer to 0 and returns without touching the OFF pin.

  The first half: whenever the lock test gets as far as the start of its timer at line
  104, from any state \<open>s1\<close> and for any button trace, the first waiting loop has ended at
  the first sample \<open>p'\<close> that reads pressed (all samples before it read released), nothing
  but the clock has changed until then, and the timer is started with the time of that
  sample.

  The second half: when the button reads pressed \<open>p\<close> ms after the start of the pass and
  released \<open>q\<close> ms later, the first waiting loop ends at the first pressed sample \<open>p'\<close>
  with the timer as it was, line 104 starts the timer with the time of that sample, the
  second waiting loop ends at a later sample that reads released with the timer still
  holding that time, and the pass returns with the timer 0 and the pins as they were.
\<close>

theorem C10_lock_test_escapable:
  "(lock_test_start push s1 = Some s2 \<longrightarrow>
      (\<exists>p'. push (clock s1 + p') = LOW \<and> (\<forall>j<p'. push (clock s1 + j) = HIGH)
            \<and> s2 = s1\<lparr>clock := clock s1 + p',
                       powerPressedStartTime := of_nat (clock s1 + p')\<rparr>))
   \<and> (rx s = CHR ''r'' # cs \<and> push (clock s + p) = LOW \<and> 0 < q \<and> push (clock s + p + q) = HIGH
      \<longrightarrow>
      (\<exists>p' q'. p' \<le> p \<and> 0 < q' \<and> p' + q' \<le> p + q
         \<and> wait_for_press push (s\<lparr>rx := cs\<rparr>) = Some (s\<lparr>rx := cs, clock := clock s + p'\<rparr>)
         \<and> push (clock s + p') = LOW \<and> (\<forall>j<p'. push (clock s + j) = HIGH)
         \<and> lock_test_start push (s\<lparr>rx := cs\<rparr>) =
             Some (s\<lparr>rx := cs, clock := clock s + p',
                     powerPressedStartTime := of_nat (clock s + p')\<rparr>)
         \<and> wait_for_release push
               (s\<lparr>rx := cs, clock := clock s + p',
                  powerPressedStartTime := of_nat (clock s + p')\<rparr>) =
             Some (s\<lparr>rx := cs, clock := clock s + p' + q',
                     powerPressedStartTime := of_nat (clock s + p')\<rparr>)
         \<and> loop push s =
             Returned (s\<lparr>rx := cs, clock := clock s + p' + q', powerPressedStartTime := 0\<rparr>)
         \<and> off_asserted (s\<lparr>rx := cs, clock := clock s + p' + q', powerPressedStartTime := 0\<rparr>)
             = off_asserted s))"
proof (intro conjI impI)
  assume "lock_test_start push s1 = Some s2"
  from lock_test_start_Some [OF this]
  show "\<exists>p'. push (clock s1 + p') = LOW \<and> (\<forall>j<p'. push (clock s1 + j) = HIGH)
            \<and> s2 = s1\<lparr>clock := clock s1 + p', powerPressedStartTime := of_nat (clock s1 + p')\<rparr>" .
next
  assume a: "rx s = CHR ''r'' # cs \<and> push (clock s + p) = LOW \<and> 0 < q
      \<and> push (clock s + p + q) = HIGH"
  let ?s1 = "s\<lparr>rx := cs\<rparr>"
  from wait_for_press_returns [of push ?s1 p] a obtain p' where p': "p' \<le> p"
    "wait_for_press push ?s1 = Some (?s1\<lparr>clock := clock ?s1 + p'\<rparr>)"
    "push (clock ?s1 + p') = LOW" "\<forall>j<p'. push (clock ?s1 + j) = HIGH"
    by auto
  let ?s2 = "s\<lparr>rx := cs, clock := clock s + p', powerPressedStartTime := of_nat (clock s + p')\<rparr>"
  have start: "lock_test_start push ?s1 = Some ?s2"
    using p'(2) by (simp add: lock_test_start_def millis_def)
  have "0 < p + q - p'" using p'(1) a by simp
  moreover have "push (clock ?s2 + (p + q - p')) = HIGH" using p'(1) a by (simp add: add.assoc)
  ultimately obtain q' where q': "q' \<le> p + q - p'" "0 < q'"
    "wait_for_release push ?s2 = Some (?s2\<lparr>clock := clock ?s2 + q'\<rparr>)"
    "push (clock ?s2 + q') = HIGH"
    using wait_for_release_returns [of push ?s2 "p + q - p'"] by blast
  let ?s4 = "s\<lparr>rx := cs, clock := clock s + p' + q', powerPressedStartTime := 0\<rparr>"
  have "lock_test push ?s1 = Returned ?s4"
    using start q'(3) by (simp add: lock_test_def add.assoc)
  with a have cmd: "serial_command push s = Returned ?s4"
    by (simp add: serial_command_def)
  have "button_check push ?s4 = Returned ?s4"
    using q'(4) by (intro button_check_idle) (simp_all add: add.assoc)
  with cmd have ret: "loop push s = Returned ?s4" by (simp add: loop_def and_then_def)
  have off: "off_asserted ?s4 = off_asserted s" by (simp add: off_asserted_def)
  have rel: "wait_for_release push ?s2 =
      Some (s\<lparr>rx := cs, clock := clock s + p' + q',
              powerPressedStartTime := of_nat (clock s + p')\<rparr>)"
    using q'(3) by (simp add: add.assoc)
  have "p' + q' \<le> p + q" using p'(1) q'(1) by simp
  with p' q'(2) start rel ret off
  show "\<exists>p' q'. p' \<le> p \<and> 0 < q' \<and> p' + q' \<le> p + q
         \<and> wait_for_press push (s\<lparr>rx := cs\<rparr>) = Some (s\<lparr>rx := cs, clock := clock s + p'\<rparr>)
         \<and> push (clock s + p') = LOW \<and> (\<forall>j<p'. push (clock s + j) = HIGH)
         \<and> lock_test_start push (s\<lparr>rx := cs\<rparr>) =
             Some (s\<lparr>rx := cs, clock := clock s + p',
                     powerPressedStartTime := of_nat (clock s + p')\<rparr>)
         \<and> wait_for_release push
               (s\<lparr>rx := cs, clock := clock s + p',
                  powerPressedStartTime := of_nat (clock s + p')\<rparr>) =
             Some (s\<lparr>rx := cs, clock := clock s + p' + q',
                     powerPressedStartTime := of_nat (clock s + p')\<rparr>)
         \<and> loop push s =
             Returned (s\<lparr>rx := cs, clock := clock s + p' + q', powerPressedStartTime := 0\<rparr>)
         \<and> off_asserted (s\<lparr>rx := cs, clock := clock s + p' + q', powerPressedStartTime := 0\<rparr>)
             = off_asserted s"
    by (intro exI [of _ p'] exI [of _ q']) simp
qed

theorem C10_lock_test_escapable_witness:
  "rx (running_state 10 0 [CHR ''r'']) = CHR ''r'' # []
   \<and> pressed_between 13 17 (clock (running_state 10 0 [CHR ''r'']) + 3) = LOW
   \<and> (0::nat) < 4
   \<and> pressed_between 13 17 (clock (running_state 10 0 [CHR ''r'']) + 3 + 4) = HIGH
   \<and> lock_test_start (pressed_between 13 17) (running_state 10 0 []) = Some (running_state 13 13 [])
   \<and> (\<exists>p'. pressed_between 13 17 (clock (running_state 10 0 []) + p') = LOW
          \<and> running_state 13 13 [] =
              (running_state 10 0 [])\<lparr>clock := clock (running_state 10 0 []) + p',
                powerPressedStartTime := of_nat (clock (running_state 10 0 []) + p')\<rparr>)
   \<and> (\<exists>c. loop (pressed_between 13 17) (running_state 10 0 [CHR ''r'']) = Returned (running_state c 0 [])
          \<and> c \<le> 17 \<and> \<not> off_asserted (running_state c 0 []))"
proof -
  let ?s = "running_state 10 0 [CHR ''r'']" and ?b = "pressed_between 13 17"
  have h1: "rx ?s = CHR ''r'' # []" by (simp add: running_state_def)
  have h2: "?b (clock ?s + 3) = LOW" by (simp add: pressed_between_def running_state_def)
  have h3: "(0::nat) < 4" by simp
  have h4: "?b (clock ?s + 3 + 4) = HIGH" by (simp add: pressed_between_def running_state_def)
  from C10_lock_test_escapable
    [where push = ?b and s = ?s and cs = "[]" and p = 3 and q = 4] h1 h2 h3 h4
  obtain p' q' where pq: "p' \<le> 3" "p' + q' \<le> 3 + 4" "?b (clock ?s + p') = LOW"
    "lock_test_start ?b (?s\<lparr>rx := []\<rparr>) =
       Some (?s\<lparr>rx := [], clock := clock ?s + p', powerPressedStartTime := of_nat (clock ?s + p')\<rparr>)"
    "loop ?b ?s = Returned (?s\<lparr>rx := [], clock := clock ?s + p' + q', powerPressedStartTime := 0\<rparr>)"
    by blast
  from pq(1,3) have "p' = 3"
    by (simp add: pressed_between_def running_state_def split: if_splits)
  with pq(4) have start: "lock_test_start ?b (running_state 10 0 []) = Some (running_state 13 13 [])"
    by (simp add: running_state_def)
  from C10_lock_test_escapable
    [where push = ?b and ?s1.0 = "running_state 10 0 []" and ?s2.0 = "running_state 13 13 []"] start
  obtain p'' where "?b (clock (running_state 10 0 []) + p'') = LOW"
    "running_state 13 13 [] =
       (running_state 10 0 [])\<lparr>clock := clock (running_state 10 0 []) + p'',
          powerPressedStartTime := of_nat (clock (running_state 10 0 []) + p'')\<rparr>"
    by blast
  then have only: "\<exists>p'. ?b (clock (running_state 10 0 []) + p') = LOW
          \<and> running_state 13 13 [] =
              (running_state 10 0 [])\<lparr>clock := clock (running_state 10 0 []) + p',
                powerPressedStartTime := of_nat (clock (running_state 10 0 []) + p')\<rparr>" by blast
  have "loop ?b ?s = Returned (running_state (10 + p' + q') 0 [])
      \<and> 10 + p' + q' \<le> 17 \<and> \<not> off_asserted (running_state (10 + p' + q') 0 [])"
    using pq(2,5) by (simp add: running_state_def off_asserted_def)
  then have "\<exists>c. loop ?b ?s = Returned (running_state c 0 [])
          \<and> c \<le> 17 \<and> \<not> off_asserted (running_state c 0 [])" ..
  with h1 h2 h3 h4 start only show ?thesis by blast
qed

end
